theory Spec2Isabelle
  imports Complex_Main
begin

section \<open>The DLA generator (src/dla\_generator.py)\<close>

text \<open>
  The source is read as Python 3 with numpy: \<^verbatim>\<open>/\<close> is true division, numpy's
  \<^verbatim>\<open>round\<close> rounds halves to the even neighbour, an index \<open>i\<close> with \<open>-n \<le> i < 0\<close>
  on an axis of length \<open>n\<close> reads position \<open>n + i\<close>, and any other index outside
  \<open>0 \<dots> n - 1\<close> raises \<^verbatim>\<open>IndexError\<close>.

  Errors are values. \<open>ValueError\<close>, \<open>IndexError\<close> and \<open>ZeroDivisionError\<close> are
  the built-in exceptions the statements of the two source files can raise, and
  \<open>OverflowError\<close> is one that a density function handed to the sampler can raise (as
  the repository's \<^verbatim>\<open>normpdf\<close> does when \<^verbatim>\<open>(x - mu)**2.0\<close> leaves the float range).
  \<open>InvalidSizeError\<close> is the dedicated error the specification names; no statement of
  the source raises it, and it is here only so that statements about it can be written
  down.
\<close>

datatype py_error =
  ValueError | IndexError | ZeroDivisionError | OverflowError | InvalidSizeError

type_synonym pos = "int \<times> int"

definition add_pos :: "pos \<Rightarrow> pos \<Rightarrow> pos" where
  "add_pos a b = (fst a + fst b, snd a + snd b)"

text \<open>
  The class \<^verbatim>\<open>C\<close>: a two-dimensional boolean array together with the attribute
  \<^verbatim>\<open>_radius\<close>. The radius is \<open>10\<close> at first and afterwards always the square root of
  a sum of two integer squares (line 123), so the record keeps its square, an integer;
  \<open>radius\<close> below is the value the program holds. Floating-point square roots are
  taken as exact.
\<close>

record grid =
  cells :: "bool list list"
  radius_sq :: int

definition shape0 :: "grid \<Rightarrow> nat" where
  "shape0 g = length (cells g)"

definition shape1 :: "grid \<Rightarrow> nat" where
  "shape1 g = (case cells g of [] \<Rightarrow> 0 | r # _ \<Rightarrow> length r)"

definition radius :: "grid \<Rightarrow> real" where
  "radius g = sqrt (real_of_int (radius_sq g))"

text \<open>numpy's normalisation of one index on an axis of length \<open>n\<close>.\<close>

definition np_index :: "nat \<Rightarrow> int \<Rightarrow> py_error + nat" where
  "np_index n i =
     (if 0 \<le> i \<and> i < int n then Inr (nat i)
      else if - int n \<le> i \<and> i < 0 then Inr (nat (i + int n))
      else Inl IndexError)"

text \<open>\<^verbatim>\<open>self[i, j]\<close> and \<^verbatim>\<open>self[i, j] = v\<close>.\<close>

definition getitem :: "grid \<Rightarrow> pos \<Rightarrow> py_error + bool" where
  "getitem g c =
     (case np_index (shape0 g) (fst c) of
        Inl e \<Rightarrow> Inl e
      | Inr i \<Rightarrow>
          (case np_index (shape1 g) (snd c) of
             Inl e \<Rightarrow> Inl e
           | Inr j \<Rightarrow> Inr (cells g ! i ! j)))"

definition setitem :: "grid \<Rightarrow> pos \<Rightarrow> bool \<Rightarrow> py_error + grid" where
  "setitem g c v =
     (case np_index (shape0 g) (fst c) of
        Inl e \<Rightarrow> Inl e
      | Inr i \<Rightarrow>
          (case np_index (shape1 g) (snd c) of
             Inl e \<Rightarrow> Inl e
           | Inr j \<Rightarrow> Inr (g\<lparr>cells := (cells g)[i := (cells g ! i)[j := v]]\<rparr>)))"

text \<open>
  \<^verbatim>\<open>_possible_directions\<close>, in the order of the source; \<^verbatim>\<open>has_neighbors\<close> probes
  them in this order.
\<close>

definition possible_directions :: "pos list" where
  "possible_directions =
     [(1, 0), (1, 1), (0, 1), (-1, 1), (-1, 0), (-1, -1), (0, -1), (1, -1)]"

text \<open>
  \<^verbatim>\<open>(np.array(self.shape) / 2).round().astype(int)\<close>: \<open>round_half n\<close> is \<open>n / 2\<close>
  rounded to the nearest integer, a half going to the even neighbour (lemma
  \<open>round_half_real\<close>).
\<close>

definition round_half :: "nat \<Rightarrow> int" where
  "round_half n =
     (if even n then int (n div 2)
      else if even (n div 2) then int (n div 2)
      else int (n div 2) + 1)"

definition center :: "grid \<Rightarrow> pos" where
  "center g = (round_half (shape0 g), round_half (shape1 g))"

text \<open>\<^verbatim>\<open>min(*self.shape)/2 - 2\<close>.\<close>

definition max_radius :: "grid \<Rightarrow> real" where
  "max_radius g = real (min (shape0 g) (shape1 g)) / 2 - 2"

text \<open>
  The loop test \<^verbatim>\<open>grid.radius < grid.max_radius()\<close> of line 100, on the squares:
  \<open>sqrt r < m / 2 - 2\<close> holds exactly when \<open>4 < m\<close> and \<open>4 * r < (m - 4)\<^sup>2\<close>
  (lemma \<open>radius_lt_max_iff\<close>).
\<close>

definition radius_lt_max :: "grid \<Rightarrow> bool" where
  "radius_lt_max g =
     (let m = int (min (shape0 g) (shape1 g))
      in 4 < m \<and> 4 * radius_sq g < (m - 4) * (m - 4))"

text \<open>The squared Euclidean distance of a position from the centre.\<close>

definition dist_sq :: "grid \<Rightarrow> pos \<Rightarrow> int" where
  "dist_sq g p =
     (fst p - fst (center g)) * (fst p - fst (center g)) +
     (snd p - snd (center g)) * (snd p - snd (center g))"

text \<open>
  \<^verbatim>\<open>out_of_bounds\<close>: the distance from the centre exceeds the radius, on the squares
  (lemma \<open>out_of_bounds_iff\<close>).
\<close>

definition out_of_bounds :: "grid \<Rightarrow> pos \<Rightarrow> bool" where
  "out_of_bounds g p = (dist_sq g p > radius_sq g)"

text \<open>
  \<^verbatim>\<open>has_neighbors\<close>: Python's \<^verbatim>\<open>any\<close> over a generator reads the cells one by one
  and stops at the first true one; a read that raises ends it with the error.
\<close>

fun any_cell :: "grid \<Rightarrow> pos list \<Rightarrow> py_error + bool" where
  "any_cell g [] = Inr False"
| "any_cell g (c # cs) =
     (case getitem g c of
        Inl e \<Rightarrow> Inl e
      | Inr True \<Rightarrow> Inr True
      | Inr False \<Rightarrow> any_cell g cs)"

definition has_neighbors :: "grid \<Rightarrow> pos \<Rightarrow> py_error + bool" where
  "has_neighbors g coordinate =
     any_cell g (map (\<lambda>d. add_pos d coordinate) possible_directions)"

text \<open>The test of lines 110 and 111.\<close>

definition hits_edge :: "grid \<Rightarrow> pos \<Rightarrow> bool" where
  "hits_edge g p =
     (fst p < 0 \<or> fst p \<ge> int (shape0 g) - 1 \<or>
      snd p < 0 \<or> snd p \<ge> int (shape1 g) - 1)"

text \<open>
  The body of the walk after the move (lines 110 to 126). It ends in one of three ways:
  the first \<^verbatim>\<open>break\<close> (the particle is dropped), the second \<^verbatim>\<open>break\<close> (the cell
  is set and the radius may grow), or the next iteration.
\<close>

datatype step_result = Escaped | Stuck grid | Walking

definition check_position :: "grid \<Rightarrow> pos \<Rightarrow> py_error + step_result" where
  "check_position g p =
     (if hits_edge g p then Inr Escaped
      else
        (case has_neighbors g p of
           Inl e \<Rightarrow> Inl e
         | Inr False \<Rightarrow> Inr Walking
         | Inr True \<Rightarrow>
             (case setitem g p True of
                Inl e \<Rightarrow> Inl e
              | Inr g' \<Rightarrow>
                  Inr (Stuck (if out_of_bounds g' p
                              then g'\<lparr>radius_sq := dist_sq g' p\<rparr>
                              else g')))))"

text \<open>
  The random walk (lines 106 to 126) over the results \<open>ks\<close> of the successive calls
  \<^verbatim>\<open>random.randint(0, 7)\<close>, each below 8. When the draws are used up with no
  \<^verbatim>\<open>break\<close> the grid is unchanged.
\<close>

fun walk :: "grid \<Rightarrow> pos \<Rightarrow> nat list \<Rightarrow> py_error + grid" where
  "walk g p [] = Inr g"
| "walk g p (k # ks) =
     (case check_position g (add_pos p (possible_directions ! k)) of
        Inl e \<Rightarrow> Inl e
      | Inr Escaped \<Rightarrow> Inr g
      | Inr (Stuck g') \<Rightarrow> Inr g'
      | Inr Walking \<Rightarrow> walk g (add_pos p (possible_directions ! k)) ks)"

text \<open>
  The randomness of one particle: \<open>entry\<close> is the pair
  \<^verbatim>\<open>[round(cos(entry) * radius), round(sin(entry) * radius)]\<close> of lines 103 and 104,
  whatever the angle drawn makes it, and \<open>draws i\<close> is the result of the \<open>i\<close>-th call of
  \<^verbatim>\<open>random.randint(0, 7)\<close> in this particle's walk. \<^verbatim>\<open>range(200)\<close> takes the first 200.
  Any pair of integers may stand for \<open>entry\<close>, which covers every pair the source can
  compute; the runs evaluated below enter at angle 0, where the pair is \<open>(10, 0)\<close> for
  radius 10.
\<close>

record trial =
  entry :: pos
  draws :: "nat \<Rightarrow> nat"

definition particle :: "grid \<Rightarrow> trial \<Rightarrow> py_error + grid" where
  "particle g t = walk g (add_pos (center g) (entry t)) (map (draws t) [0..<200])"

text \<open>
  The main loop (line 100) over the randomness of the successive particles. The loop has
  no bound on the number of particles: \<open>None\<close> says that the particles supplied were used
  up with the loop test still true.
\<close>

fun main_loop :: "grid \<Rightarrow> trial list \<Rightarrow> (py_error + grid) option" where
  "main_loop g [] = (if radius_lt_max g then None else Some (Inr g))"
| "main_loop g (t # ts) =
     (if radius_lt_max g
      then (case particle g t of
              Inl e \<Rightarrow> Some (Inl e)
            | Inr g' \<Rightarrow> main_loop g' ts)
      else Some (Inr g))"

text \<open>\<^verbatim>\<open>np.zeros((size, size), dtype=np.bool).view(C)\<close>: a negative size raises. The parameter \<^verbatim>\<open>size\<close> is written \<open>n\<close>.\<close>

definition np_zeros :: "int \<Rightarrow> py_error + grid" where
  "np_zeros n =
     (if n < 0 then Inl ValueError
      else Inr \<lparr>cells = replicate (nat n) (replicate (nat n) False),
                radius_sq = 100\<rparr>)"

text \<open>Lines 95 to 98: the grid with its seed.\<close>

definition seed_grid :: "int \<Rightarrow> py_error + grid" where
  "seed_grid n =
     (case np_zeros n of
        Inl e \<Rightarrow> Inl e
      | Inr g \<Rightarrow> setitem g (center g) True)"

definition generate_dla_grid :: "int \<Rightarrow> trial list \<Rightarrow> (py_error + grid) option" where
  "generate_dla_grid n ts =
     (case seed_grid n of
        Inl e \<Rightarrow> Some (Inl e)
      | Inr g \<Rightarrow> main_loop g ts)"

text \<open>One iteration of the main loop, as a relation between grids.\<close>

inductive loop_step :: "grid \<Rightarrow> grid \<Rightarrow> bool" where
  "radius_lt_max g \<Longrightarrow> particle g t = Inr g' \<Longrightarrow> loop_step g g'"

subsection \<open>Notions the statements use\<close>

text \<open>A cell of the field that is set; a position outside the field is not occupied.\<close>

definition occupied :: "grid \<Rightarrow> pos \<Rightarrow> bool" where
  "occupied g p =
     (0 \<le> fst p \<and> fst p < int (shape0 g) \<and> 0 \<le> snd p \<and> snd p < int (shape1 g) \<and>
      cells g ! nat (fst p) ! nat (snd p))"

text \<open>An \<open>n\<close> by \<open>n\<close> array.\<close>

definition square_grid :: "nat \<Rightarrow> grid \<Rightarrow> bool" where
  "square_grid n g = (length (cells g) = n \<and> list_all (\<lambda>r. length r = n) (cells g))"

text \<open>
  The neighbour test in the specification's words: one of the eight adjacent positions
  lies inside the field and is occupied.
\<close>

definition occupied_neighbor :: "grid \<Rightarrow> pos \<Rightarrow> bool" where
  "occupied_neighbor g p = list_ex (\<lambda>d. occupied g (add_pos d p)) possible_directions"

text \<open>The same on the array: no cell of the last row or of the last column is set.\<close>

definition last_lines_clear :: "grid \<Rightarrow> bool" where
  "last_lines_clear g =
     (cells g \<noteq> [] \<and> list_all (\<lambda>r. r \<noteq> [] \<and> \<not> last r) (cells g) \<and>
      list_all (\<lambda>b. \<not> b) (last (cells g)))"

text \<open>No occupied cell lies in the last row or in the last column of an \<open>n\<close> by \<open>n\<close> grid.\<close>

definition edge_free :: "nat \<Rightarrow> grid \<Rightarrow> bool" where
  "edge_free n g = (\<forall>q. occupied g q \<longrightarrow> fst q < int n - 1 \<and> snd q < int n - 1)"

text \<open>A position inside the field, in the specification's words.\<close>

definition in_field :: "grid \<Rightarrow> pos \<Rightarrow> bool" where
  "in_field g p =
     (0 \<le> fst p \<and> fst p < int (shape0 g) \<and> 0 \<le> snd p \<and> snd p < int (shape1 g))"

text \<open>
  The invariant of a run on an \<open>n\<close> by \<open>n\<close> grid: the array keeps its shape, and every
  occupied cell is the seed or has both coordinates in \<open>0 \<dots> n - 2\<close>.
\<close>

definition run_inv :: "nat \<Rightarrow> grid \<Rightarrow> bool" where
  "run_inv n g =
     (square_grid n g \<and>
      (\<forall>p. occupied g p \<longrightarrow>
         p = (round_half n, round_half n) \<or>
         (0 \<le> fst p \<and> fst p \<le> int n - 2 \<and> 0 \<le> snd p \<and> snd p \<le> int n - 2)))"

text \<open>
  What a run keeps true of the radius on an \<open>n\<close> by \<open>n\<close> grid: it is at least 10, no
  occupied cell is farther from the centre than the radius, and the radius is 10 or
  below \<open>n / 2 - 2 + sqrt 2\<close>.
\<close>

definition radius_inv :: "nat \<Rightarrow> grid \<Rightarrow> bool" where
  "radius_inv n g =
     (100 \<le> radius_sq g \<and>
      (\<forall>p. occupied g p \<longrightarrow> dist_sq g p \<le> radius_sq g) \<and>
      (radius_sq g = 100 \<or> radius g < real n / 2 - 2 + sqrt 2))"

section \<open>The Metropolis-Hastings sampler (src/metropolis\_hastings\_algorithm.py)\<close>

text \<open>
  Floats are taken as real numbers. The density function is any Python callable from a
  float to a float: a call returns a value (\<open>Inr\<close>) or raises (\<open>Inl\<close>). A density that
  underflows to zero in floating point is one that returns 0 there.
\<close>

text \<open>Python's \<^verbatim>\<open>/\<close> on floats: a zero divisor raises.\<close>

definition py_truediv :: "real \<Rightarrow> real \<Rightarrow> py_error + real" where
  "py_truediv a b = (if b = 0 then Inl ZeroDivisionError else Inr (a / b))"

text \<open>
  Line 65, \<^verbatim>\<open>density_func(candidate) / density_func(x)\<close>: the left operand is evaluated
  first, then the right one, then the division; the first of them that raises ends the
  evaluation.
\<close>

definition ratio_of :: "(real \<Rightarrow> py_error + real) \<Rightarrow> real \<Rightarrow> real \<Rightarrow> py_error + real" where
  "ratio_of density_func candidate x =
     (case density_func candidate of
        Inl e \<Rightarrow> Inl e
      | Inr a \<Rightarrow>
          (case density_func x of
             Inl e \<Rightarrow> Inl e
           | Inr b \<Rightarrow> py_truediv a b))"

text \<open>
  Lines 64 to 68: the \<^verbatim>\<open>try\<close> encloses the whole of line 65, the two calls of the
  density included. A \<^verbatim>\<open>ZeroDivisionError\<close> raised anywhere in it is caught and a
  \<^verbatim>\<open>ZeroDivisionError\<close> (with a new message) is raised; any other error passes
  through.
\<close>

definition except_clause :: "py_error \<Rightarrow> py_error" where
  "except_clause e = (if e = ZeroDivisionError then ZeroDivisionError else e)"

text \<open>
  The loop of lines 62 to 74. Each element \<open>(u, v)\<close> of the last argument holds the two
  random numbers of one iteration: \<open>u\<close> is \<^verbatim>\<open>uniform(-alpha, alpha)\<close> of line 63 and \<open>v\<close>
  is \<^verbatim>\<open>uniform(0, 1)\<close> of line 69. The loop need not end: \<open>None\<close> says that the random
  numbers supplied were used up with the loop test still true.

  The result is a pair. Its second component is what the source computes; its first
  component records the loop's own path, the pair of \<^verbatim>\<open>candidate\<close> and \<^verbatim>\<open>x\<close> each
  time line 65 is evaluated, so that statements can speak of the current state at some
  iteration.
\<close>

fun mh_loop ::
  "(real \<Rightarrow> py_error + real) \<Rightarrow> int \<Rightarrow> real \<Rightarrow> int \<Rightarrow> real list \<Rightarrow> (real \<times> real) list
   \<Rightarrow> (real \<times> real) list \<times> (py_error + real list) option" where
  "mh_loop density_func n x burn output [] =
     ([], if int (length output) \<noteq> n then None else Some (Inr output))"
| "mh_loop density_func n x burn output ((u, v) # ds) =
     (if int (length output) \<noteq> n
      then
        (case ratio_of density_func (x + u) x of
           Inl e \<Rightarrow> ([(x + u, x)], Some (Inl (except_clause e)))
         | Inr probability_ratio \<Rightarrow>
             (let rest =
                (if v < probability_ratio
                 then (if burn = 0
                       then mh_loop density_func n (x + u) burn (output @ [x + u]) ds
                       else mh_loop density_func n (x + u) (burn - 1) output ds)
                 else mh_loop density_func n x burn output ds)
              in ((x + u, x) # fst rest, snd rest)))
      else ([], Some (Inr output)))"

text \<open>
  \<^verbatim>\<open>metropolis_hastings\<close>: \<open>x0\<close> is the first draw, \<^verbatim>\<open>uniform(-alpha, alpha)\<close> of line
  61. The parameter \<^verbatim>\<open>alpha\<close> only bounds the draws \<open>x0\<close> and \<open>u\<close>, which are given
  here, and the parameter \<^verbatim>\<open>size\<close> is written \<open>n\<close>.
\<close>

definition metropolis_hastings ::
  "(real \<Rightarrow> py_error + real) \<Rightarrow> int \<Rightarrow> int \<Rightarrow> real \<Rightarrow> (real \<times> real) list
   \<Rightarrow> (py_error + real list) option" where
  "metropolis_hastings density_func n burn x0 ds = snd (mh_loop density_func n x0 burn [] ds)"

text \<open>The evaluations of line 65 in a call, in order: \<^verbatim>\<open>candidate\<close> and \<^verbatim>\<open>x\<close>.\<close>

definition ratio_calls ::
  "(real \<Rightarrow> py_error + real) \<Rightarrow> int \<Rightarrow> int \<Rightarrow> real \<Rightarrow> (real \<times> real) list
   \<Rightarrow> (real \<times> real) list" where
  "ratio_calls density_func n burn x0 ds = fst (mh_loop density_func n x0 burn [] ds)"

section \<open>Basic facts\<close>

lemma round_half_real: "round_half n = (let x = real n / 2; f = \<lfloor>x\<rfloor> in if x - f < 1/2 then f else if x - f > 1/2 then f + 1 else if even f then f else f + 1)"
proof -
  have f: "\<lfloor>real n / 2\<rfloor> = int (n div 2)"
    using floor_divide_of_nat_eq [of n 2, where ?'a = real] by simp
  have x: "real n / 2 - real_of_int (int (n div 2)) = real (n mod 2) / 2"
  proof -
    have "real n / real 2 = real (n div 2) + real (n mod 2) / real 2"
      by (rule of_nat_of_nat_div_aux)
    then have "real n / 2 = real (n div 2) + real (n mod 2) / 2"
      by (simp only: of_nat_numeral)
    then show ?thesis by (simp only: of_int_of_nat_eq)
  qed
  show ?thesis
  proof (cases "even n")
    case True
    then have "n mod 2 = 0" by presburger
    with f x True show ?thesis by (simp add: round_half_def Let_def)
  next
    case False
    then have "n mod 2 = 1" by presburger
    with f x False show ?thesis by (simp add: round_half_def Let_def)
  qed
qed

lemma radius_lt_max_iff:
  assumes "0 \<le> radius_sq g"
  shows "radius_lt_max g \<longleftrightarrow> radius g < max_radius g"
proof -
  define m where "m = int (min (shape0 g) (shape1 g))"
  define h where "h = real_of_int m / 2 - 2"
  have mr: "max_radius g = h" by (simp add: max_radius_def h_def m_def)
  show ?thesis
  proof (cases "4 < m")
    case False
    then have "h \<le> 0" by (simp add: h_def)
    moreover have "0 \<le> radius g" by (simp add: radius_def assms)
    ultimately show ?thesis using False by (simp add: radius_lt_max_def Let_def m_def[symmetric] mr)
  next
    case True
    then have hpos: "0 < h" by (simp add: h_def)
    have "radius g < h \<longleftrightarrow> real_of_int (radius_sq g) < h\<^sup>2"
      using hpos assms unfolding radius_def
      by (metis less_eq_real_def real_less_lsqrt real_sqrt_less_iff real_sqrt_abs abs_of_pos)
    also have "\<dots> \<longleftrightarrow> 4 * real_of_int (radius_sq g) < (real_of_int m - 4) * (real_of_int m - 4)"
      by (simp add: h_def power2_eq_square field_simps)
    also have "\<dots> \<longleftrightarrow> 4 * radius_sq g < (m - 4) * (m - 4)"
    proof -
      have "4 * real_of_int (radius_sq g) = real_of_int (4 * radius_sq g)" by simp
      moreover have "(real_of_int m - 4) * (real_of_int m - 4) = real_of_int ((m - 4) * (m - 4))" by simp
      ultimately show ?thesis by (simp only: of_int_less_iff)
    qed
    finally show ?thesis using True by (simp add: radius_lt_max_def Let_def m_def[symmetric] mr)
  qed
qed

lemma out_of_bounds_iff:
  assumes "0 \<le> radius_sq g"
  shows "out_of_bounds g p \<longleftrightarrow> sqrt (real_of_int (dist_sq g p)) > radius g"
  by (simp add: out_of_bounds_def radius_def)

lemma round_half_bounds: "0 < n \<Longrightarrow> 0 \<le> round_half n \<and> round_half n < int n"
  unfolding round_half_def by (auto elim!: oddE) 

lemma round_half_formula: "round_half n = (if n mod 4 = 3 then int (n div 2) + 1 else int (n div 2))"
  unfolding round_half_def by presburger

lemma square_shape0: "square_grid n g \<Longrightarrow> shape0 g = n"
  by (simp add: square_grid_def shape0_def)

lemma square_shape1: "square_grid n g \<Longrightarrow> shape1 g = n"
  by (cases "cells g") (auto simp: square_grid_def shape1_def)

lemma square_row: "square_grid n g \<Longrightarrow> i < n \<Longrightarrow> length (cells g ! i) = n"
  by (auto simp: square_grid_def list_all_length)

lemma np_index_in: "0 \<le> i \<Longrightarrow> i < int n \<Longrightarrow> np_index n i = Inr (nat i)"
  by (simp add: np_index_def)

lemma setitem_in:
  "square_grid n g \<Longrightarrow> 0 \<le> fst c \<Longrightarrow> fst c < int n \<Longrightarrow> 0 \<le> snd c \<Longrightarrow> snd c < int n \<Longrightarrow>
   setitem g c v = Inr (g\<lparr>cells := (cells g)[nat (fst c) := (cells g ! nat (fst c))[nat (snd c) := v]]\<rparr>)"
  by (simp add: setitem_def square_shape0 square_shape1 np_index_in)

lemma square_update:
  "square_grid n g \<Longrightarrow> square_grid n (g\<lparr>cells := (cells g)[i := (cells g ! i)[j := v]]\<rparr>)"
  by (cases "i < length (cells g)") (auto simp: square_grid_def list_all_length nth_list_update)

lemma occupied_square:
  "square_grid n g \<Longrightarrow> occupied g p \<longleftrightarrow>
     (0 \<le> fst p \<and> fst p < int n \<and> 0 \<le> snd p \<and> snd p < int n \<and> cells g ! nat (fst p) ! nat (snd p))"
  by (simp add: occupied_def square_shape0 square_shape1)

lemma occupied_update:
  assumes "square_grid n g" "0 \<le> fst c" "fst c < int n" "0 \<le> snd c" "snd c < int n"
  shows "occupied (g\<lparr>cells := (cells g)[nat (fst c) := (cells g ! nat (fst c))[nat (snd c) := True]]\<rparr>) p
         \<longleftrightarrow> p = c \<or> occupied g p"
proof -
  let ?g' = "g\<lparr>cells := (cells g)[nat (fst c) := (cells g ! nat (fst c))[nat (snd c) := True]]\<rparr>"
  have sq: "square_grid n ?g'" using assms(1) by (rule square_update)
  have len: "length (cells g) = n" using assms(1) by (simp add: square_grid_def)
  show ?thesis
    unfolding occupied_square[OF sq] occupied_square[OF assms(1)]
    using assms(2-) square_row[OF assms(1)] len
    by (cases p; cases c) (auto simp: nth_list_update)
qed

lemma np_zeros_square: "0 \<le> n \<Longrightarrow> np_zeros n = Inr g \<Longrightarrow> square_grid (nat n) g"
  by (auto simp: np_zeros_def square_grid_def list_all_length)

lemma np_zeros_empty:
  assumes "np_zeros n = Inr g"
  shows "\<not> occupied g p"
proof -
  have n: "0 \<le> n" and g: "g = \<lparr>cells = replicate (nat n) (replicate (nat n) False), radius_sq = 100\<rparr>"
    using assms by (auto simp: np_zeros_def split: if_splits)
  have sq: "square_grid (nat n) g" using np_zeros_square[OF n assms] .
  show ?thesis unfolding occupied_square[OF sq] by (auto simp: g)
qed

lemma np_zeros_radius: "np_zeros n = Inr g \<Longrightarrow> radius_sq g = 100"
  by (auto simp: np_zeros_def split: if_splits)

lemma center_square: "square_grid n g \<Longrightarrow> center g = (round_half n, round_half n)"
  by (simp add: center_def square_shape0 square_shape1)

lemma seed_grid_pos:
  assumes "0 < n"
  obtains g0 where "np_zeros n = Inr g0"
    "seed_grid n = Inr (g0\<lparr>cells := (cells g0)[nat (round_half (nat n)) := (cells g0 ! nat (round_half (nat n)))[nat (round_half (nat n)) := True]]\<rparr>)"
proof -
  obtain g0 where g0: "np_zeros n = Inr g0" using assms by (auto simp: np_zeros_def)
  have sq: "square_grid (nat n) g0" using np_zeros_square[OF _ g0] assms by simp
  have b: "0 \<le> round_half (nat n) \<and> round_half (nat n) < int (nat n)"
    using round_half_bounds[of "nat n"] assms by simp
  have "setitem g0 (center g0) True = Inr (g0\<lparr>cells := (cells g0)[nat (round_half (nat n)) := (cells g0 ! nat (round_half (nat n)))[nat (round_half (nat n)) := True]]\<rparr>)"
    using setitem_in[OF sq, of "center g0" True] b by (simp add: center_square[OF sq])
  then show ?thesis using that g0 by (simp add: seed_grid_def)
qed

lemma seed_grid_facts:
  assumes "0 < n" "seed_grid n = Inr g"
  shows "square_grid (nat n) g" "radius_sq g = 100"
    "occupied g p \<longleftrightarrow> p = (round_half (nat n), round_half (nat n))"
proof -
  obtain g0 where g0: "np_zeros n = Inr g0"
    and sg: "seed_grid n = Inr (g0\<lparr>cells := (cells g0)[nat (round_half (nat n)) := (cells g0 ! nat (round_half (nat n)))[nat (round_half (nat n)) := True]]\<rparr>)"
    using seed_grid_pos[OF assms(1)] by blast
  have sq: "square_grid (nat n) g0" using np_zeros_square[OF _ g0] assms by simp
  have b: "0 \<le> round_half (nat n) \<and> round_half (nat n) < int (nat n)"
    using round_half_bounds[of "nat n"] assms by simp
  have g: "g = g0\<lparr>cells := (cells g0)[nat (round_half (nat n)) := (cells g0 ! nat (round_half (nat n)))[nat (round_half (nat n)) := True]]\<rparr>"
    using sg assms(2) by simp
  show "square_grid (nat n) g" unfolding g using sq by (rule square_update)
  show "radius_sq g = 100" unfolding g using np_zeros_radius[OF g0] by simp
  show "occupied g p \<longleftrightarrow> p = (round_half (nat n), round_half (nat n))"
    unfolding g
    using occupied_update[OF sq, of "(round_half (nat n), round_half (nat n))" p] b np_zeros_empty[OF g0]
    by simp
qed

lemma seed_grid_neg: "n < 0 \<Longrightarrow> seed_grid n = Inl ValueError"
  by (simp add: seed_grid_def np_zeros_def)

lemma seed_grid_zero: "seed_grid 0 = Inl IndexError"
  by (simp add: seed_grid_def np_zeros_def setitem_def np_index_def shape0_def center_def round_half_def)

lemma small_not_lt_max:
  assumes "square_grid n g" "radius_sq g = 100" 
  shows "radius_lt_max g \<longleftrightarrow> 24 < n"
proof -
  have "4 < int n \<and> 400 < (int n - 4) * (int n - 4) \<longleftrightarrow> 24 < int n"
  proof
    assume a: "4 < int n \<and> 400 < (int n - 4) * (int n - 4)"
    show "24 < int n"
    proof (rule ccontr)
      assume "\<not> 24 < int n"
      then have "int n - 4 \<le> 20" "0 \<le> int n - 4" using a by auto
      then have "(int n - 4) * (int n - 4) \<le> 20 * 20" by (intro mult_mono) auto
      then show False using a by simp
    qed
  next
    assume b: "24 < int n"
    then have "21 \<le> int n - 4" by simp
    then have "21 * 21 \<le> (int n - 4) * (int n - 4)" by (intro mult_mono) auto
    then show "4 < int n \<and> 400 < (int n - 4) * (int n - 4)" using b by simp
  qed
  then show ?thesis
    using assms by (simp add: radius_lt_max_def Let_def square_shape0 square_shape1)
qed

subsection \<open>The neighbour test\<close>

lemma mem_possible_directions:
  "d \<in> set possible_directions \<Longrightarrow> - 1 \<le> fst d \<and> fst d \<le> 1 \<and> - 1 \<le> snd d \<and> snd d \<le> 1"
  by (auto simp: possible_directions_def)

lemma getitem_near:
  assumes sq: "square_grid n g" and "0 < n"
    and "- 1 \<le> i" "i < int n" "- 1 \<le> j" "j < int n"
  shows "getitem g (i, j) = Inr (occupied g (i mod int n, j mod int n))"
proof -
  have i: "np_index n i = Inr (nat (i mod int n))"
  proof (cases "0 \<le> i")
    case True
    then show ?thesis using assms by (simp add: np_index_def)
  next
    case False
    then have "i = - 1" using assms by simp
    then show ?thesis using assms by (simp add: np_index_def zmod_minus1)
  qed
  have j: "np_index n j = Inr (nat (j mod int n))"
  proof (cases "0 \<le> j")
    case True
    then show ?thesis using assms by (simp add: np_index_def)
  next
    case False
    then have "j = - 1" using assms by simp
    then show ?thesis using assms by (simp add: np_index_def zmod_minus1)
  qed
  show ?thesis
    using assms(2) by (simp add: getitem_def square_shape0[OF sq] square_shape1[OF sq] i j occupied_square[OF sq])
qed

lemma any_cell_total:
  "(\<And>c. c \<in> set cs \<Longrightarrow> getitem g c = Inr (f c)) \<Longrightarrow> any_cell g cs = Inr (list_ex f cs)"
  by (induction cs) (auto split: bool.splits)

lemma has_neighbors_wrapped:
  assumes sq: "square_grid n g"
    and "0 \<le> x" "x \<le> int n - 2" "0 \<le> y" "y \<le> int n - 2"
  shows "has_neighbors g (x, y) =
         Inr (list_ex (\<lambda>d. occupied g ((fst d + x) mod int n, (snd d + y) mod int n)) possible_directions)"
proof -
  have n: "0 < n" using assms by simp
  have "any_cell g (map (\<lambda>d. add_pos d (x, y)) possible_directions) =
        Inr (list_ex (\<lambda>c. occupied g (fst c mod int n, snd c mod int n)) (map (\<lambda>d. add_pos d (x, y)) possible_directions))"
  proof (rule any_cell_total)
    fix c assume "c \<in> set (map (\<lambda>d. add_pos d (x, y)) possible_directions)"
    then obtain d where d: "d \<in> set possible_directions" and c: "c = add_pos d (x, y)" by auto
    have "getitem g (fst d + x, snd d + y) = Inr (occupied g ((fst d + x) mod int n, (snd d + y) mod int n))"
      using mem_possible_directions[OF d] assms(2-) by (intro getitem_near[OF sq n]) auto
    then show "getitem g c = Inr (occupied g (fst c mod int n, snd c mod int n))"
      by (simp add: c add_pos_def)
  qed
  then show ?thesis by (simp add: has_neighbors_def list_ex_iff add_pos_def)
qed

lemma occupied_wrap:
  assumes sq: "square_grid n g" and ef: "edge_free n g" and n: "0 < n"
    and "- 1 \<le> i" "i < int n" "- 1 \<le> j" "j < int n"
  shows "occupied g (i mod int n, j mod int n) \<longleftrightarrow> occupied g (i, j)"
proof (cases "0 \<le> i \<and> 0 \<le> j")
  case True
  then show ?thesis using assms by simp
next
  case False
  then have "i = - 1 \<or> j = - 1" using assms by auto
  then have "i mod int n = int n - 1 \<or> j mod int n = int n - 1"
    using assms by (auto simp: zmod_minus1)
  then have "\<not> occupied g (i mod int n, j mod int n)"
    using ef unfolding edge_free_def by (metis fst_conv snd_conv less_irrefl)
  moreover have "\<not> occupied g (i, j)" using False by (auto simp: occupied_def)
  ultimately show ?thesis by simp
qed

lemma has_neighbors_edge_free:
  assumes sq: "square_grid n g" and ef: "edge_free n g"
    and "0 \<le> x" "x \<le> int n - 2" "0 \<le> y" "y \<le> int n - 2"
  shows "has_neighbors g (x, y) = Inr (occupied_neighbor g (x, y))"
proof -
  have "occupied g ((fst d + x) mod int n, (snd d + y) mod int n) \<longleftrightarrow> occupied g (add_pos d (x, y))"
    if "d \<in> set possible_directions" for d
    using mem_possible_directions[OF that] assms(3-) unfolding add_pos_def fst_conv snd_conv
    by (intro occupied_wrap[OF sq ef]) auto
  then show ?thesis
    unfolding has_neighbors_wrapped[OF sq assms(3-)] occupied_neighbor_def
    by (simp add: list_ex_iff)
qed

lemma last_lines_clear_edge_free:
  assumes sq: "square_grid n g" and cl: "last_lines_clear g"
  shows "edge_free n g"
  unfolding edge_free_def
proof (intro allI impI)
  fix q assume oc: "occupied g q"
  then have q: "0 \<le> fst q" "fst q < int n" "0 \<le> snd q" "snd q < int n"
    and c: "cells g ! nat (fst q) ! nat (snd q)"
    unfolding occupied_square[OF sq] by auto
  have len: "length (cells g) = n" using sq by (simp add: square_grid_def)
  have row: "length (cells g ! nat (fst q)) = n" using square_row[OF sq] q by simp
  have ne: "cells g \<noteq> []" using cl by (simp add: last_lines_clear_def)
  have "fst q \<noteq> int n - 1"
  proof
    assume e: "fst q = int n - 1"
    have "nat (fst q) = n - 1" using e by linarith
    then have "last (cells g) = cells g ! nat (fst q)" using ne len by (simp add: last_conv_nth)
    moreover have "\<forall>b \<in> set (last (cells g)). \<not> b" using cl by (auto simp: last_lines_clear_def list_all_iff)
    ultimately show False using c row q by (metis nth_mem nat_less_iff)
  qed
  moreover have "snd q \<noteq> int n - 1"
  proof
    assume e: "snd q = int n - 1"
    let ?r = "cells g ! nat (fst q)"
    have "?r \<in> set (cells g)" using len q by simp
    then have "?r \<noteq> [] \<and> \<not> last ?r" using cl by (auto simp: last_lines_clear_def list_all_iff)
    moreover have "nat (snd q) = n - 1" using e by linarith
    then have "last ?r = ?r ! nat (snd q)" using calculation row by (metis last_conv_nth)
    ultimately show False using c by simp
  qed
  ultimately show "fst q < int n - 1 \<and> snd q < int n - 1" using q by simp
qed

subsection \<open>One walk\<close>

lemma hits_edge_square:
  "square_grid n g \<Longrightarrow>
   hits_edge g p \<longleftrightarrow> (fst p < 0 \<or> int n - 1 \<le> fst p \<or> snd p < 0 \<or> int n - 1 \<le> snd p)"
  by (simp add: hits_edge_def square_shape0 square_shape1)

lemma occupied_radius_update [simp]: "occupied (g\<lparr>radius_sq := r\<rparr>) q = occupied g q"
  by (simp add: occupied_def shape0_def shape1_def)

lemma square_radius_update [simp]: "square_grid n (g\<lparr>radius_sq := r\<rparr>) = square_grid n g"
  by (simp add: square_grid_def)

lemma dist_sq_square:
  "square_grid n g \<Longrightarrow> dist_sq g p =
     (fst p - round_half n) * (fst p - round_half n) + (snd p - round_half n) * (snd p - round_half n)"
  by (simp add: dist_sq_def center_square)

lemma stuck_facts:
  assumes sq: "square_grid n g" and st: "check_position g p = Inr (Stuck g')"
  shows "0 \<le> fst p \<and> fst p \<le> int n - 2 \<and> 0 \<le> snd p \<and> snd p \<le> int n - 2"
    and "has_neighbors g p = Inr True"
    and "square_grid n g'"
    and "occupied g' q \<longleftrightarrow> q = p \<or> occupied g q"
    and "radius_sq g' = max (radius_sq g) (dist_sq g p)"
proof -
  have ne: "\<not> hits_edge g p" using st by (auto simp: check_position_def split: if_splits)
  then show b: "0 \<le> fst p \<and> fst p \<le> int n - 2 \<and> 0 \<le> snd p \<and> snd p \<le> int n - 2"
    unfolding hits_edge_square[OF sq] by auto
  let ?g1 = "g\<lparr>cells := (cells g)[nat (fst p) := (cells g ! nat (fst p))[nat (snd p) := True]]\<rparr>"
  have set1: "setitem g p True = Inr ?g1" using b by (intro setitem_in[OF sq]) auto
  have sq1: "square_grid n ?g1" using sq by (rule square_update)
  show hn: "has_neighbors g p = Inr True"
    using st ne by (auto simp: check_position_def split: sum.splits bool.splits)
  have g': "g' = (if out_of_bounds ?g1 p then ?g1\<lparr>radius_sq := dist_sq ?g1 p\<rparr> else ?g1)"
    using st ne hn set1 by (simp add: check_position_def)
  show "square_grid n g'" using sq1 by (simp add: g')
  have "occupied ?g1 q \<longleftrightarrow> q = p \<or> occupied g q"
    using b by (intro occupied_update[OF sq]) auto
  then show "occupied g' q \<longleftrightarrow> q = p \<or> occupied g q" by (simp add: g')
  have "dist_sq ?g1 p = dist_sq g p" by (simp add: dist_sq_square[OF sq] dist_sq_square[OF sq1])
  then show "radius_sq g' = max (radius_sq g) (dist_sq g p)"
    by (simp add: g' out_of_bounds_def)
qed

lemma check_position_no_error:
  assumes sq: "square_grid n g"
  shows "check_position g p \<noteq> Inl e"
proof (cases "hits_edge g p")
  case True
  then show ?thesis by (simp add: check_position_def)
next
  case False
  then have b: "0 \<le> fst p \<and> fst p \<le> int n - 2 \<and> 0 \<le> snd p \<and> snd p \<le> int n - 2"
    unfolding hits_edge_square[OF sq] by auto
  then obtain w where hn: "has_neighbors g p = Inr w"
    using has_neighbors_wrapped[OF sq, of "fst p" "snd p"] by simp
  obtain g1 where "setitem g p True = Inr g1" using setitem_in[OF sq, of p True] b by simp
  then show ?thesis using False hn by (cases w) (simp_all add: check_position_def)
qed

lemma walk_cases:
  assumes sq: "square_grid n g"
  shows "walk g p ks = Inr g \<or> (\<exists>q g'. walk g p ks = Inr g' \<and> check_position g q = Inr (Stuck g'))"
proof (induction ks arbitrary: p)
  case Nil
  then show ?case by simp
next
  case (Cons k ks)
  let ?p = "add_pos p (possible_directions ! k)"
  show ?case
  proof (cases "check_position g ?p")
    case (Inl e)
    then show ?thesis using check_position_no_error[OF sq] by simp
  next
    case (Inr r)
    show ?thesis
    proof (cases r)
      case Escaped
      with Inr show ?thesis by simp
    next
      case (Stuck g1)
      with Inr have "walk g p (k # ks) = Inr g1 \<and> check_position g ?p = Inr (Stuck g1)" by simp
      then show ?thesis by blast
    next
      case Walking
      with Inr show ?thesis using Cons.IH[of ?p] by simp
    qed
  qed
qed

lemma particle_cases:
  assumes sq: "square_grid n g"
  shows "particle g t = Inr g \<or> (\<exists>q g'. particle g t = Inr g' \<and> check_position g q = Inr (Stuck g'))"
  unfolding particle_def using sq by (rule walk_cases)

subsection \<open>The main loop\<close>

lemma main_loop_exit: "\<not> radius_lt_max g \<Longrightarrow> main_loop g ts = Some (Inr g)"
  by (cases ts) simp_all

lemma loop_step_cases:
  assumes sq: "square_grid n g" and ls: "loop_step g g'"
  shows "radius_lt_max g \<and> (g' = g \<or> (\<exists>q. check_position g q = Inr (Stuck g')))"
  using ls
proof cases
  case (1 t)
  then show ?thesis using particle_cases[OF sq, of t] by auto
qed

lemma loop_step_square:
  assumes "square_grid n g" "loop_step g g'"
  shows "square_grid n g'"
  using loop_step_cases[OF assms] stuck_facts(3)[OF assms(1)] assms(1) by auto

lemma reach_square:
  assumes "loop_step\<^sup>*\<^sup>* g g'" "square_grid n g"
  shows "square_grid n g'"
  using assms by (induction rule: rtranclp_induct) (auto intro: loop_step_square)

lemma loop_step_mono:
  assumes "square_grid n g" "loop_step g g'" "occupied g p"
  shows "occupied g' p"
proof -
  consider "g' = g" | q where "check_position g q = Inr (Stuck g')"
    using loop_step_cases[OF assms(1,2)] by blast
  then show ?thesis
  proof cases
    case 1
    then show ?thesis using assms(3) by simp
  next
    case 2
    then show ?thesis using stuck_facts(4)[OF assms(1) 2, of p] assms(3) by simp
  qed
qed

lemma reach_mono:
  assumes "loop_step\<^sup>*\<^sup>* g g'" "square_grid n g" "occupied g p"
  shows "occupied g' p"
  using assms
proof (induction rule: rtranclp_induct)
  case base
  then show ?case by simp
next
  case (step y z)
  then show ?case using loop_step_mono[OF reach_square[OF step.hyps(1) step.prems(1)] step.hyps(2)] by simp
qed

lemma main_loop_reaches:
  "main_loop g ts = Some (Inr g') \<Longrightarrow> loop_step\<^sup>*\<^sup>* g g' \<and> \<not> radius_lt_max g'"
proof (induction ts arbitrary: g)
  case Nil
  then show ?case by (simp split: if_splits)
next
  case (Cons t ts)
  show ?case
  proof (cases "radius_lt_max g")
    case False
    then show ?thesis using Cons.prems by simp
  next
    case True
    then obtain g1 where p: "particle g t = Inr g1" and m: "main_loop g1 ts = Some (Inr g')"
      using Cons.prems by (auto split: sum.splits)
    have "loop_step g g1" using True p by (rule loop_step.intros)
    then show ?thesis using Cons.IH[OF m] by (meson converse_rtranclp_into_rtranclp)
  qed
qed

lemma generate_reaches:
  assumes "generate_dla_grid n ts = Some (Inr g)"
  obtains g0 where "seed_grid n = Inr g0" "loop_step\<^sup>*\<^sup>* g0 g" "\<not> radius_lt_max g"
  using assms main_loop_reaches by (auto simp: generate_dla_grid_def split: sum.splits)

lemma main_loop_no_error:
  "square_grid n g \<Longrightarrow> main_loop g ts \<noteq> Some (Inl e)"
proof (induction ts arbitrary: g)
  case Nil
  then show ?case by simp
next
  case (Cons t ts)
  show ?case
  proof (cases "radius_lt_max g")
    case False
    then show ?thesis by simp
  next
    case True
    obtain g1 where p: "particle g t = Inr g1" using particle_cases[OF Cons.prems, of t] by auto
    have "loop_step g g1" using True p by (rule loop_step.intros)
    then have "square_grid n g1" using loop_step_square[OF Cons.prems] by simp
    then show ?thesis using Cons.IH True p by simp
  qed
qed

lemma run_inv_seed:
  assumes "seed_grid n = Inr g0"
  shows "0 < n" "run_inv (nat n) g0" "occupied g0 (center g0)" "center g0 = (round_half (nat n), round_half (nat n))"
proof -
  show n: "0 < n"
  proof (rule ccontr)
    assume "\<not> 0 < n"
    then have "n < 0 \<or> n = 0" by auto
    then show False using assms seed_grid_neg[of n] seed_grid_zero by auto
  qed
  have sq: "square_grid (nat n) g0" using n assms by (rule seed_grid_facts)
  show c: "center g0 = (round_half (nat n), round_half (nat n))" using sq by (rule center_square)
  show "run_inv (nat n) g0" using sq seed_grid_facts(3)[OF n assms] by (simp add: run_inv_def)
  show "occupied g0 (center g0)" using seed_grid_facts(3)[OF n assms] c by simp
qed

lemma run_inv_step:
  assumes "run_inv n g" "loop_step g g'"
  shows "run_inv n g'"
proof -
  have sq: "square_grid n g" using assms(1) by (simp add: run_inv_def)
  consider "g' = g" | q where "check_position g q = Inr (Stuck g')"
    using loop_step_cases[OF sq assms(2)] by blast
  then show ?thesis
  proof cases
    case 1
    then show ?thesis using assms(1) by simp
  next
    case 2
    show ?thesis
      unfolding run_inv_def
      using stuck_facts(1,3)[OF sq 2] stuck_facts(4)[OF sq 2] assms(1)
      by (auto simp: run_inv_def)
  qed
qed

lemma run_inv_reach:
  assumes "loop_step\<^sup>*\<^sup>* g g'" "run_inv n g"
  shows "run_inv n g'"
  using assms by (induction rule: rtranclp_induct) (auto intro: run_inv_step)

lemma round_half_inner: "4 < n \<Longrightarrow> round_half n \<le> int n - 2"
  unfolding round_half_def by (auto elim!: oddE)

lemma run_inv_edge_free:
  assumes "run_inv n g" "radius_lt_max g"
  shows "edge_free n g"
proof -
  have sq: "square_grid n g" using assms(1) by (simp add: run_inv_def)
  have "4 < n" using assms(2) by (simp add: radius_lt_max_def Let_def square_shape0[OF sq] square_shape1[OF sq])
  then have "round_half n \<le> int n - 2" by (rule round_half_inner)
  then show ?thesis using assms(1) by (fastforce simp: run_inv_def edge_free_def)
qed

subsection \<open>The radius\<close>

lemma dist_neighbour:
  fixes a b da db :: int
  assumes "\<bar>da\<bar> \<le> 1" and "\<bar>db\<bar> \<le> 1"
  shows "sqrt (real_of_int (a * a + b * b))
         \<le> sqrt (real_of_int ((a + da) * (a + da) + (b + db) * (b + db))) + sqrt 2"
proof -
  define A B C D :: real where "A = of_int (a + da)" and "B = of_int (b + db)"
    and "C = of_int (- da)" and "D = of_int (- db)"
  have tri: "sqrt ((A + C)\<^sup>2 + (B + D)\<^sup>2) \<le> sqrt (A\<^sup>2 + B\<^sup>2) + sqrt (C\<^sup>2 + D\<^sup>2)"
    by (rule real_sqrt_sum_squares_triangle_ineq)
  have "\<bar>C\<bar> \<le> 1" "\<bar>D\<bar> \<le> 1" using assms unfolding C_def D_def by (simp_all flip: of_int_abs)
  then have "C\<^sup>2 \<le> 1" "D\<^sup>2 \<le> 1" by (simp_all add: abs_square_le_1)
  then have le: "sqrt (C\<^sup>2 + D\<^sup>2) \<le> sqrt 2" by simp
  have l: "(A + C)\<^sup>2 + (B + D)\<^sup>2 = real_of_int (a * a + b * b)"
    by (simp add: A_def B_def C_def D_def power2_eq_square)
  have r: "A\<^sup>2 + B\<^sup>2 = real_of_int ((a + da) * (a + da) + (b + db) * (b + db))"
    by (simp add: A_def B_def power2_eq_square)
  show ?thesis using tri le unfolding l r by linarith
qed

lemma max_radius_square: "square_grid n g \<Longrightarrow> max_radius g = real n / 2 - 2"
  by (simp add: max_radius_def square_shape0 square_shape1)

lemma radius_inv_seed:
  assumes "seed_grid n = Inr g0"
  shows "radius_inv (nat n) g0"
proof -
  have n: "0 < n" using assms by (rule run_inv_seed)
  have sq: "square_grid (nat n) g0" using n assms by (rule seed_grid_facts)
  have r: "radius_sq g0 = 100" using n assms by (rule seed_grid_facts)
  have "dist_sq g0 p \<le> radius_sq g0" if "occupied g0 p" for p
    using that seed_grid_facts(3)[OF n assms, of p] r by (simp add: dist_sq_square[OF sq])
  then show ?thesis using r by (simp add: radius_inv_def)
qed

lemma radius_inv_step:
  assumes ri: "run_inv n g" and rad: "radius_inv n g" and ls: "loop_step g g'"
  shows "radius_inv n g'"
proof -
  have sq: "square_grid n g" using ri by (simp add: run_inv_def)
  have lt: "radius_lt_max g" using loop_step_cases[OF sq ls] by simp
  consider "g' = g" | q where "check_position g q = Inr (Stuck g')"
    using loop_step_cases[OF sq ls] by blast
  then show ?thesis
  proof cases
    case 1
    then show ?thesis using rad by simp
  next
    case 2
    have sq': "square_grid n g'" using stuck_facts(3)[OF sq 2] .
    have rs: "radius_sq g' = max (radius_sq g) (dist_sq g q)" using stuck_facts(5)[OF sq 2] .
    have ds: "dist_sq g' p = dist_sq g p" for p by (simp add: dist_sq_square[OF sq] dist_sq_square[OF sq'])
    have "100 \<le> radius_sq g" using rad by (simp add: radius_inv_def)
    then have a: "100 \<le> radius_sq g'" using rs by linarith
    have b: "dist_sq g' p \<le> radius_sq g'" if "occupied g' p" for p
    proof -
      have "p = q \<or> occupied g p" using that stuck_facts(4)[OF sq 2, of p] by simp
      then have "dist_sq g p \<le> dist_sq g q \<or> dist_sq g p \<le> radius_sq g"
        using rad unfolding radius_inv_def by blast
      then show ?thesis unfolding ds rs by linarith
    qed
    have c: "radius_sq g' = 100 \<or> radius g' < real n / 2 - 2 + sqrt 2"
    proof (cases "dist_sq g q \<le> radius_sq g")
      case True
      then have "radius_sq g' = radius_sq g" using rs by simp
      then show ?thesis using rad by (simp add: radius_inv_def radius_def)
    next
      case False
      then have rq: "radius_sq g' = dist_sq g q" using rs by simp
      have ef: "edge_free n g" using ri lt by (rule run_inv_edge_free)
      have bq: "0 \<le> fst q \<and> fst q \<le> int n - 2 \<and> 0 \<le> snd q \<and> snd q \<le> int n - 2"
        using stuck_facts(1)[OF sq 2] .
      have "has_neighbors g (fst q, snd q) = Inr (occupied_neighbor g (fst q, snd q))"
        using bq by (intro has_neighbors_edge_free[OF sq ef]) auto
      then have "occupied_neighbor g q" using stuck_facts(2)[OF sq 2] by simp
      then obtain d where d: "d \<in> set possible_directions" and od: "occupied g (add_pos d q)"
        by (auto simp: occupied_neighbor_def list_ex_iff)
      have dd: "\<bar>fst d\<bar> \<le> 1" "\<bar>snd d\<bar> \<le> 1" using mem_possible_directions[OF d] by auto
      have "dist_sq g (add_pos d q) \<le> radius_sq g" using rad od unfolding radius_inv_def by blast
      then have le: "sqrt (real_of_int (dist_sq g (add_pos d q))) \<le> radius g"
        by (simp add: radius_def)
      have "sqrt (real_of_int (dist_sq g q)) \<le> sqrt (real_of_int (dist_sq g (add_pos d q))) + sqrt 2"
        using dist_neighbour[OF dd, of "fst q - round_half n" "snd q - round_half n"]
        by (simp add: dist_sq_square[OF sq] add_pos_def algebra_simps)
      moreover have "radius g < real n / 2 - 2"
        using lt radius_lt_max_iff[of g] rad by (simp add: radius_inv_def max_radius_square[OF sq])
      ultimately have "radius g' < real n / 2 - 2 + sqrt 2"
        using le unfolding radius_def rq by linarith
      then show ?thesis by simp
    qed
    show ?thesis using a b c by (simp add: radius_inv_def)
  qed
qed

lemma radius_inv_reach:
  assumes "loop_step\<^sup>*\<^sup>* g g'" "run_inv n g" "radius_inv n g"
  shows "radius_inv n g'"
  using assms
proof (induction rule: rtranclp_induct)
  case base
  then show ?case by simp
next
  case (step y z)
  then show ?case using radius_inv_step[OF run_inv_reach[OF step.hyps(1) step.prems(1)] _ step.hyps(2)] by simp
qed

lemma round_half_nat:
  assumes "0 < n"
  shows "round_half (nat n) = (if n mod 4 = 3 then n div 2 + 1 else n div 2)"
proof -
  define m where "m = nat n"
  have n: "n = int m" using assms by (simp add: m_def)
  have "n mod 4 = int (m mod 4)" "n div 2 = int (m div 2)"
    unfolding n by (simp_all add: zmod_int zdiv_int)
  then have "nat n mod 4 = 3 \<longleftrightarrow> n mod 4 = 3" "int (nat n div 2) = n div 2"
    unfolding m_def[symmetric] by simp_all
  then show ?thesis by (simp add: round_half_formula)
qed

section \<open>Grid creation\<close>

text \<open>
  Claim C8 as stated, the seed at \<open>(\<lfloor>N/2\<rfloor>, \<lfloor>N/2\<rfloor>)\<close>, fails at size 3: \<open>3 / 2\<close> is
  \<open>1.5\<close>, which numpy rounds to \<open>2\<close>, so the seed is the corner cell \<open>(2, 2)\<close> and not
  \<open>(1, 1)\<close>.
\<close>

theorem center_floor_counterexample:
  "seed_grid 3 =
     Inr \<lparr>cells = [[False, False, False], [False, False, False], [False, False, True]],
          radius_sq = 100\<rparr> \<and>
   center \<lparr>cells = [[False, False, False], [False, False, False], [False, False, True]],
           radius_sq = 100\<rparr> = (2, 2) \<and>
   (2 :: int, 2 :: int) \<noteq> (3 div 2, 3 div 2)"
  by (simp add: seed_grid_def np_zeros_def setitem_def np_index_def shape0_def shape1_def
      center_def round_half_def numeral_3_eq_3)

text \<open>
  Claim C8, amended: for every size \<open>N \<ge> 1\<close> the centre point is \<open>(c, c)\<close> where \<open>c\<close> is
  \<open>N / 2\<close> rounded to the nearest integer with a half going to the even neighbour, that
  is \<open>\<lfloor>N/2\<rfloor> + 1\<close> when \<open>N mod 4 = 3\<close> and \<open>\<lfloor>N/2\<rfloor>\<close> otherwise; the seed set at
  creation is this cell, and it is the only occupied one.
\<close>

theorem seed_at_center:
  assumes "0 < n" and "seed_grid n = Inr g"
  shows "center g = (if n mod 4 = 3 then (n div 2 + 1, n div 2 + 1) else (n div 2, n div 2)) \<and>
         (\<forall>p. occupied g p \<longleftrightarrow> p = center g)"
proof -
  have sq: "square_grid (nat n) g" using assms by (rule seed_grid_facts)
  have c: "center g = (round_half (nat n), round_half (nat n))" using sq by (rule center_square)
  define m where "m = nat n"
  have n: "n = int m" using assms(1) by (simp add: m_def)
  have "n mod 4 = int (m mod 4)" "n div 2 = int (m div 2)"
    unfolding n by (simp_all add: zmod_int zdiv_int)
  then have "nat n mod 4 = 3 \<longleftrightarrow> n mod 4 = 3" "int (nat n div 2) = n div 2"
    unfolding m_def[symmetric] by simp_all
  then have "round_half (nat n) = (if n mod 4 = 3 then n div 2 + 1 else n div 2)"
    by (simp add: round_half_formula)
  then show ?thesis using seed_grid_facts(3)[OF assms] c by simp
qed

theorem seed_at_center_witness:
  "seed_grid 7 = Inr \<lparr>cells = (replicate 7 (replicate 7 False))[4 := (replicate 7 False)[4 := True]], radius_sq = 100\<rparr> \<and>
   center \<lparr>cells = (replicate 7 (replicate 7 False))[4 := (replicate 7 False)[4 := True]], radius_sq = 100\<rparr> = (4, 4) \<and>
   occupied \<lparr>cells = (replicate 7 (replicate 7 False))[4 := (replicate 7 False)[4 := True]], radius_sq = 100\<rparr> (4, 4)"
proof -
  have s: "seed_grid 7 = Inr \<lparr>cells = (replicate 7 (replicate 7 False))[4 := (replicate 7 False)[4 := True]], radius_sq = 100\<rparr>"
    by code_simp
  show ?thesis using seed_at_center [OF _ s] s by simp
qed

text \<open>
  Claim C3 as stated fails at sizes 0 and \<open>-1\<close>: there \<open>size / 2 - 2 \<le> 10\<close> holds as
  well, and the function raises (the \<^verbatim>\<open>IndexError\<close> of the seed assignment, the
  \<^verbatim>\<open>ValueError\<close> of \<^verbatim>\<open>np.zeros\<close>) instead of returning a grid.
\<close>

theorem small_size_counterexample:
  "real_of_int 0 / 2 - 2 \<le> 10 \<and> generate_dla_grid 0 [] = Some (Inl IndexError) \<and>
   real_of_int (- 1) / 2 - 2 \<le> 10 \<and> generate_dla_grid (- 1) [] = Some (Inl ValueError)"
  by (simp add: generate_dla_grid_def seed_grid_zero seed_grid_neg)

text \<open>
  Claim C3, amended: for every size \<open>N\<close> with \<open>1 \<le> N\<close> and \<open>N / 2 - 2 \<le> 10\<close> (that is
  \<open>1 \<le> N \<le> 24\<close>) the loop test is false the first time it is evaluated, so whatever the
  random source holds the function returns, with no error, the \<open>N\<close> by \<open>N\<close> grid as
  created: radius 10, and exactly one occupied cell, the seed at the centre \<open>(c, c)\<close>
  with \<open>c\<close> as in claim C8.
\<close>

theorem small_size_returns_seed:
  assumes "1 \<le> n" and "real_of_int n / 2 - 2 \<le> 10"
  shows "let c = (if n mod 4 = 3 then n div 2 + 1 else n div 2);
             g = \<lparr>cells = (replicate (nat n) (replicate (nat n) False))
                     [nat c := (replicate (nat n) False)[nat c := True]],
                  radius_sq = 100\<rparr>
         in seed_grid n = Inr g \<and> generate_dla_grid n ts = Some (Inr g) \<and>
            radius g = 10 \<and> max_radius g = real_of_int n / 2 - 2 \<and>
            \<not> radius g < max_radius g \<and>
            shape0 g = nat n \<and> shape1 g = nat n \<and> center g = (c, c) \<and>
            0 \<le> c \<and> c < n \<and>
            (\<forall>p. occupied g p \<longleftrightarrow> p = (c, c))"
proof -
  define c where "c = (if n mod 4 = 3 then n div 2 + 1 else n div 2)"
  define g where "g = \<lparr>cells = (replicate (nat n) (replicate (nat n) False))
                     [nat c := (replicate (nat n) False)[nat c := True]],
                  radius_sq = 100\<rparr>"
  have n: "0 < n" using assms(1) by simp
  have rc: "round_half (nat n) = c" unfolding c_def using n by (rule round_half_nat)
  have cb: "0 \<le> c \<and> c < n" using round_half_bounds[of "nat n"] n rc by simp
  obtain g0 where g0: "np_zeros n = Inr g0"
    and sg: "seed_grid n = Inr (g0\<lparr>cells := (cells g0)[nat (round_half (nat n)) := (cells g0 ! nat (round_half (nat n)))[nat (round_half (nat n)) := True]]\<rparr>)"
    using seed_grid_pos[OF n] by blast
  have g0e: "g0 = \<lparr>cells = replicate (nat n) (replicate (nat n) False), radius_sq = 100\<rparr>"
    using g0 n by (simp add: np_zeros_def)
  have s: "seed_grid n = Inr g"
    using sg cb unfolding rc g0e g_def by simp
  have sq: "square_grid (nat n) g" and r: "radius_sq g = 100"
    using n s by (rule seed_grid_facts)+
  have "n \<le> 24" using assms(2) by simp
  then have nlt: "\<not> radius_lt_max g" using small_not_lt_max[OF sq r] by simp
  have rad: "radius g = 10" using real_sqrt_abs[of 10] by (simp add: radius_def r)
  have mx: "max_radius g = real_of_int n / 2 - 2" using max_radius_square[OF sq] n by simp
  have nl: "\<not> radius g < max_radius g" using nlt radius_lt_max_iff[of g] r by simp
  have gen: "generate_dla_grid n ts = Some (Inr g)"
    using s nlt by (simp add: generate_dla_grid_def main_loop_exit)
  have ce: "center g = (c, c)" using center_square[OF sq] rc by simp
  have oc: "\<forall>p. occupied g p \<longleftrightarrow> p = (c, c)"
    using seed_grid_facts(3)[OF n s] rc by simp
  have "seed_grid n = Inr g \<and> generate_dla_grid n ts = Some (Inr g) \<and>
            radius g = 10 \<and> max_radius g = real_of_int n / 2 - 2 \<and>
            \<not> radius g < max_radius g \<and>
            shape0 g = nat n \<and> shape1 g = nat n \<and> center g = (c, c) \<and>
            0 \<le> c \<and> c < n \<and>
            (\<forall>p. occupied g p \<longleftrightarrow> p = (c, c))"
    using s gen rad mx nl square_shape0[OF sq] square_shape1[OF sq] ce cb oc by blast
  then show ?thesis unfolding Let_def c_def[symmetric] g_def[symmetric] .
qed

theorem small_size_returns_seed_witness:
  "(1::int) \<le> 3 \<and> real_of_int 3 / 2 - 2 \<le> 10 \<and>
   generate_dla_grid 3 [] =
     Some (Inr \<lparr>cells = [[False, False, False], [False, False, False], [False, False, True]],
               radius_sq = 100\<rparr>) \<and>
   occupied \<lparr>cells = [[False, False, False], [False, False, False], [False, False, True]],
             radius_sq = 100\<rparr> (2, 2)"
proof -
  let ?g = "\<lparr>cells = (replicate (nat 3) (replicate (nat 3) False))
                     [nat 2 := (replicate (nat 3) False)[nat 2 := True]],
                  radius_sq = 100\<rparr>"
  have e: "?g = \<lparr>cells = [[False, False, False], [False, False, False], [False, False, True]],
             radius_sq = 100\<rparr>" by code_simp
  have "let c = (if (3::int) mod 4 = 3 then 3 div 2 + 1 else 3 div 2);
             g = \<lparr>cells = (replicate (nat 3) (replicate (nat 3) False))
                     [nat c := (replicate (nat 3) False)[nat c := True]],
                  radius_sq = 100\<rparr>
         in seed_grid 3 = Inr g \<and> generate_dla_grid 3 [] = Some (Inr g) \<and>
            radius g = 10 \<and> max_radius g = real_of_int 3 / 2 - 2 \<and>
            \<not> radius g < max_radius g \<and>
            shape0 g = nat 3 \<and> shape1 g = nat 3 \<and> center g = (c, c) \<and>
            0 \<le> c \<and> c < 3 \<and>
            (\<forall>p. occupied g p \<longleftrightarrow> p = (c, c))"
    by (rule small_size_returns_seed) simp_all
  then have "generate_dla_grid 3 [] = Some (Inr ?g) \<and> occupied ?g (2, 2)"
    by (simp add: Let_def)
  then show ?thesis unfolding e by simp
qed

text \<open>
  Claim C4 as stated fails at size 0: the error that reaches the caller is the
  \<^verbatim>\<open>IndexError\<close> of the seed assignment, not a dedicated invalid-size error.
\<close>

theorem invalid_size_counterexample:
  "generate_dla_grid 0 [] = Some (Inl IndexError) \<and> IndexError \<noteq> InvalidSizeError"
  by (simp add: generate_dla_grid_def seed_grid_zero)

text \<open>
  Claim C4, amended: for every size \<open>\<le> 0\<close> the function fails before the main loop
  runs, with a built-in error: \<^verbatim>\<open>ValueError\<close> from \<^verbatim>\<open>np.zeros\<close> for a negative
  size, \<^verbatim>\<open>IndexError\<close> from the seed assignment for size 0.
\<close>

theorem nonpositive_size_fails:
  assumes "n \<le> 0"
  shows "generate_dla_grid n ts = Some (Inl (if n < 0 then ValueError else IndexError))"
  using assms by (cases "n < 0") (simp_all add: generate_dla_grid_def seed_grid_neg seed_grid_zero)

theorem nonpositive_size_fails_witness:
  "(-3::int) \<le> 0 \<and> generate_dla_grid (-3) [] = Some (Inl ValueError) \<and>
   (0::int) \<le> 0 \<and> generate_dla_grid 0 [] = Some (Inl IndexError)"
  using nonpositive_size_fails [of "-3" "[]"] nonpositive_size_fails [of 0 "[]"] by simp

section \<open>The neighbour test and the edge test\<close>

text \<open>
  Claim C1 as stated fails on a 3 by 3 grid whose only occupied cell is the corner
  \<open>(2, 2)\<close>. At \<open>(0, 0)\<close> the probe of \<open>(-1, -1)\<close> reads the cell \<open>(2, 2)\<close>, so the
  answer is true although no adjacent position inside the field is occupied; at
  \<open>(2, 0)\<close> the first probe, of \<open>(3, 0)\<close>, raises \<^verbatim>\<open>IndexError\<close>.
\<close>

theorem has_neighbors_counterexample:
  "has_neighbors \<lparr>cells = [[False, False, False], [False, False, False], [False, False, True]], radius_sq = 100\<rparr> (0, 0) = Inr True \<and>
   \<not> occupied_neighbor \<lparr>cells = [[False, False, False], [False, False, False], [False, False, True]], radius_sq = 100\<rparr> (0, 0) \<and>
   has_neighbors \<lparr>cells = [[False, False, False], [False, False, False], [False, False, True]], radius_sq = 100\<rparr> (2, 0) = Inl IndexError"
  by code_simp

text \<open>
  Claim C1, amended: on an \<open>N\<close> by \<open>N\<close> grid and at a position with both coordinates in
  \<open>0 \<dots> N - 2\<close> (the positions the edge test of the walk lets through),
  \<^verbatim>\<open>has_neighbors\<close> never faults and returns true iff one of the eight neighbour
  cells is occupied, where a neighbour index \<open>-1\<close> is read as the last row or column
  \<open>N - 1\<close>; when the last row and the last column hold no occupied cell, this is: iff one
  of the eight adjacent positions lies inside the field and is occupied.
\<close>

theorem has_neighbors_guarded:
  assumes "square_grid n g" and "0 \<le> x" and "x \<le> int n - 2" and "0 \<le> y" and "y \<le> int n - 2"
  shows "has_neighbors g (x, y) =
           Inr (list_ex (\<lambda>d. occupied g ((fst d + x) mod int n, (snd d + y) mod int n))
                  possible_directions) \<and>
         (last_lines_clear g \<longrightarrow> has_neighbors g (x, y) = Inr (occupied_neighbor g (x, y)))"
  using has_neighbors_wrapped[OF assms]
    has_neighbors_edge_free[OF assms(1) last_lines_clear_edge_free[OF assms(1)] assms(2-)]
  by simp

theorem has_neighbors_guarded_witness:
  "square_grid 3 \<lparr>cells = [[False, False, False], [False, True, False], [False, False, False]], radius_sq = 100\<rparr> \<and>
   last_lines_clear \<lparr>cells = [[False, False, False], [False, True, False], [False, False, False]], radius_sq = 100\<rparr> \<and>
   has_neighbors \<lparr>cells = [[False, False, False], [False, True, False], [False, False, False]], radius_sq = 100\<rparr> (0, 0) = Inr True \<and>
   occupied_neighbor \<lparr>cells = [[False, False, False], [False, True, False], [False, False, False]], radius_sq = 100\<rparr> (0, 0)"
proof -
  let ?g = "\<lparr>cells = [[False, False, False], [False, True, False], [False, False, False]], radius_sq = 100\<rparr>"
  have sq: "square_grid 3 ?g" by (simp add: square_grid_def)
  have cl: "last_lines_clear ?g" by (simp add: last_lines_clear_def)
  have oc: "occupied_neighbor ?g (0, 0)" by code_simp
  have "has_neighbors ?g (0, 0) =
           Inr (list_ex (\<lambda>d. occupied ?g ((fst d + 0) mod int 3, (snd d + 0) mod int 3))
                  possible_directions) \<and>
         (last_lines_clear ?g \<longrightarrow> has_neighbors ?g (0, 0) = Inr (occupied_neighbor ?g (0, 0)))"
    by (rule has_neighbors_guarded [OF sq]) simp_all
  then have "has_neighbors ?g (0, 0) = Inr (occupied_neighbor ?g (0, 0))"
    using cl by blast
  then show ?thesis using sq cl oc by simp
qed

text \<open>
  Claim C2 as stated fails on the 25 by 25 grid: the position \<open>(24, 12)\<close> has both
  coordinates in \<open>0 \<dots> N - 1\<close>, and the particle is dropped there. A walk that starts
  at \<open>(22, 12)\<close> and draws direction 0 twice reaches it.
\<close>

theorem escaped_in_field_counterexample:
  "(case seed_grid 25 of
      Inl e \<Rightarrow> False
    | Inr g \<Rightarrow> in_field g (24, 12) \<and> check_position g (24, 12) = Inr Escaped \<and>
        walk g (22, 12) [0, 0] = Inr g)"
  by code_simp

text \<open>
  Claim C2, amended: on an \<open>N\<close> by \<open>N\<close> grid a particle is dropped at the edge test
  exactly when some coordinate is \<open>< 0\<close> or \<open>\<ge> N - 1\<close>; a particle whose coordinates all
  lie in \<open>0 \<dots> N - 2\<close> is not dropped by that test.
\<close>

theorem escaped_iff:
  assumes "square_grid n g"
  shows "check_position g p = Inr Escaped \<longleftrightarrow>
         (fst p < 0 \<or> int n - 1 \<le> fst p \<or> snd p < 0 \<or> int n - 1 \<le> snd p)"
proof -
  have "check_position g p = Inr Escaped \<longleftrightarrow> hits_edge g p"
    by (auto simp: check_position_def split: sum.splits bool.splits)
  then show ?thesis by (simp add: hits_edge_square[OF assms])
qed

theorem escaped_iff_witness:
  "square_grid 3 \<lparr>cells = [[False, False, False], [False, True, False], [False, False, False]], radius_sq = 100\<rparr> \<and>
   check_position \<lparr>cells = [[False, False, False], [False, True, False], [False, False, False]], radius_sq = 100\<rparr> (2, 1) = Inr Escaped \<and>
   check_position \<lparr>cells = [[False, False, False], [False, True, False], [False, False, False]], radius_sq = 100\<rparr> (0, 1) \<noteq> Inr Escaped"
proof -
  have sq: "square_grid 3 \<lparr>cells = [[False, False, False], [False, True, False], [False, False, False]], radius_sq = 100\<rparr>"
    by (simp add: square_grid_def)
  show ?thesis using sq escaped_iff [OF sq, of "(2, 1)"] escaped_iff [OF sq, of "(0, 1)"] by simp
qed

section \<open>Invariants of a run\<close>

text \<open>
  A run of \<^verbatim>\<open>generate_dla_grid\<close> starts from the grid \<open>g0\<close> of \<open>seed_grid\<close> and goes
  through iterations of the main loop, whatever the random source gives: the grids it can
  hold are those \<open>g\<close> with \<open>loop_step\<^sup>*\<^sup>* g0 g\<close>, and the grid returned is one of them
  (lemma \<open>generate_reaches\<close>). One iteration changes at most one cell, so these grids are
  all the states of the occupancy field.
\<close>

text \<open>
  Claim C5: in every run, a cell occupied at one moment is occupied at every later
  moment, and the centre cell is occupied from creation on.
\<close>

theorem occupancy_monotone:
  assumes "seed_grid n = Inr g0" and "loop_step\<^sup>*\<^sup>* g0 g" and "loop_step\<^sup>*\<^sup>* g g'"
  shows "occupied g (center g0) \<and> (\<forall>p. occupied g p \<longrightarrow> occupied g' p)"
proof -
  have sq0: "square_grid (nat n) g0" using run_inv_seed(2)[OF assms(1)] by (simp add: run_inv_def)
  have sq: "square_grid (nat n) g" using reach_square[OF assms(2) sq0] .
  have "occupied g (center g0)" using reach_mono[OF assms(2) sq0 run_inv_seed(3)[OF assms(1)]] .
  moreover have "occupied g p \<longrightarrow> occupied g' p" for p using reach_mono[OF assms(3) sq] by blast
  ultimately show ?thesis by blast
qed

theorem occupancy_monotone_witness:
  "(case seed_grid 25 of
      Inl e \<Rightarrow> False
    | Inr g0 \<Rightarrow>
        (case particle g0 \<lparr>entry = (10, 0), draws = (\<lambda>i. 4)\<rparr> of
           Inl e \<Rightarrow> False
         | Inr g1 \<Rightarrow>
             radius_lt_max g0 \<and> occupied g0 (center g0) \<and> occupied g1 (center g0)))"
proof -
  let ?g0 = "\<lparr>cells = (replicate 25 (replicate 25 False))[12 := (replicate 25 False)[12 := True]], radius_sq = 100\<rparr>"
  let ?g1 = "\<lparr>cells = (replicate 25 (replicate 25 False))[12 := (replicate 25 False)[12 := True], 13 := (replicate 25 False)[12 := True]], radius_sq = 100\<rparr>"
  let ?t = "\<lparr>entry = (10, 0), draws = (\<lambda>i. 4)\<rparr>"
  have s: "seed_grid 25 = Inr ?g0" by code_simp
  have r: "radius_lt_max ?g0" by code_simp
  have p: "particle ?g0 ?t = Inr ?g1" by code_simp
  have st: "loop_step\<^sup>*\<^sup>* ?g0 ?g1" using loop_step.intros [OF r p] by (rule r_into_rtranclp)
  have c: "center ?g0 = (12, 12)" by code_simp
  have o1: "occupied ?g1 (13, 12)" by code_simp
  have o0: "\<not> occupied ?g0 (13, 12)" by code_simp
  have "occupied ?g0 (center ?g0) \<and> (\<forall>p. occupied ?g0 p \<longrightarrow> occupied ?g1 p)"
    using s rtranclp.rtrancl_refl st by (rule occupancy_monotone)
  then have "occupied ?g0 (center ?g0) \<and> occupied ?g1 (center ?g0)" by blast
  then show ?thesis using s p r by simp
qed

text \<open>
  Claim C7: in every run, a cell that becomes occupied in an iteration of the main loop
  (so any occupied cell but the seed) had, in the grid of that moment, an occupied cell
  among its eight adjacent positions.
\<close>

theorem stuck_has_neighbor:
  assumes "seed_grid n = Inr g0" and "loop_step\<^sup>*\<^sup>* g0 g"
    and "radius_lt_max g" and "particle g t = Inr g'"
    and "occupied g' p" and "\<not> occupied g p"
  shows "occupied_neighbor g p"
proof -
  have inv: "run_inv (nat n) g" using run_inv_reach[OF assms(2) run_inv_seed(2)[OF assms(1)]] .
  then have sq: "square_grid (nat n) g" by (simp add: run_inv_def)
  have ef: "edge_free (nat n) g" using inv assms(3) by (rule run_inv_edge_free)
  have "g' \<noteq> g" using assms(5,6) by auto
  then obtain q where q: "check_position g q = Inr (Stuck g')"
    using particle_cases[OF sq, of t] assms(4) by auto
  have "p = q" using stuck_facts(4)[OF sq q, of p] assms(5,6) by simp
  have b: "0 \<le> fst q \<and> fst q \<le> int (nat n) - 2 \<and> 0 \<le> snd q \<and> snd q \<le> int (nat n) - 2"
    using stuck_facts(1)[OF sq q] .
  have "has_neighbors g (fst q, snd q) = Inr (occupied_neighbor g (fst q, snd q))"
    using b by (intro has_neighbors_edge_free[OF sq ef]) auto
  then show ?thesis using stuck_facts(2)[OF sq q] \<open>p = q\<close> by simp
qed

theorem stuck_has_neighbor_witness:
  "(case seed_grid 25 of
      Inl e \<Rightarrow> False
    | Inr g0 \<Rightarrow>
        (case particle g0 \<lparr>entry = (10, 0), draws = (\<lambda>i. 4)\<rparr> of
           Inl e \<Rightarrow> False
         | Inr g1 \<Rightarrow>
             radius_lt_max g0 \<and> occupied g1 (13, 12) \<and> \<not> occupied g0 (13, 12) \<and>
             occupied_neighbor g0 (13, 12)))"
proof -
  let ?g0 = "\<lparr>cells = (replicate 25 (replicate 25 False))[12 := (replicate 25 False)[12 := True]], radius_sq = 100\<rparr>"
  let ?g1 = "\<lparr>cells = (replicate 25 (replicate 25 False))[12 := (replicate 25 False)[12 := True], 13 := (replicate 25 False)[12 := True]], radius_sq = 100\<rparr>"
  let ?t = "\<lparr>entry = (10, 0), draws = (\<lambda>i. 4)\<rparr>"
  have s: "seed_grid 25 = Inr ?g0" by code_simp
  have r: "radius_lt_max ?g0" by code_simp
  have p: "particle ?g0 ?t = Inr ?g1" by code_simp
  have st: "loop_step\<^sup>*\<^sup>* ?g0 ?g1" using loop_step.intros [OF r p] by (rule r_into_rtranclp)
  have c: "center ?g0 = (12, 12)" by code_simp
  have o1: "occupied ?g1 (13, 12)" by code_simp
  have o0: "\<not> occupied ?g0 (13, 12)" by code_simp
  have "occupied_neighbor ?g0 (13, 12)"
    using s rtranclp.rtrancl_refl r p o1 o0 by (rule stuck_has_neighbor)
  then show ?thesis using s p r o1 o0 by simp
qed

text \<open>
  Claim C10: in every run, an occupied cell is the seed or has both coordinates in
  \<open>0 \<dots> N - 2\<close>, and every position at which a particle is committed has both
  coordinates in \<open>0 \<dots> N - 2\<close>.
\<close>

theorem committed_inside:
  assumes "seed_grid n = Inr g0" and "loop_step\<^sup>*\<^sup>* g0 g"
  shows "(\<forall>p. occupied g p \<longrightarrow>
            p = center g0 \<or> (0 \<le> fst p \<and> fst p \<le> n - 2 \<and> 0 \<le> snd p \<and> snd p \<le> n - 2)) \<and>
         (\<forall>p g'. check_position g p = Inr (Stuck g') \<longrightarrow>
            0 \<le> fst p \<and> fst p \<le> n - 2 \<and> 0 \<le> snd p \<and> snd p \<le> n - 2)"
proof -
  have n: "0 < n" and c: "center g0 = (round_half (nat n), round_half (nat n))"
    using assms(1) by (rule run_inv_seed)+
  have inv: "run_inv (nat n) g" using run_inv_reach[OF assms(2) run_inv_seed(2)[OF assms(1)]] .
  then have sq: "square_grid (nat n) g" by (simp add: run_inv_def)
  have "occupied g p \<longrightarrow>
          p = center g0 \<or> (0 \<le> fst p \<and> fst p \<le> n - 2 \<and> 0 \<le> snd p \<and> snd p \<le> n - 2)" for p
  proof
    assume "occupied g p"
    then have "p = (round_half (nat n), round_half (nat n)) \<or>
         (0 \<le> fst p \<and> fst p \<le> int (nat n) - 2 \<and> 0 \<le> snd p \<and> snd p \<le> int (nat n) - 2)"
      using inv unfolding run_inv_def by blast
    then show "p = center g0 \<or> (0 \<le> fst p \<and> fst p \<le> n - 2 \<and> 0 \<le> snd p \<and> snd p \<le> n - 2)"
      using n c by simp
  qed
  moreover have "check_position g p = Inr (Stuck g') \<longrightarrow>
          0 \<le> fst p \<and> fst p \<le> n - 2 \<and> 0 \<le> snd p \<and> snd p \<le> n - 2" for p g'
    using stuck_facts(1)[OF sq, of p g'] n by auto
  ultimately show ?thesis by blast
qed

theorem committed_inside_witness:
  "(case seed_grid 25 of
      Inl e \<Rightarrow> False
    | Inr g0 \<Rightarrow>
        (case particle g0 \<lparr>entry = (10, 0), draws = (\<lambda>i. 4)\<rparr> of
           Inl e \<Rightarrow> False
         | Inr g1 \<Rightarrow>
             radius_lt_max g0 \<and> occupied g1 (13, 12) \<and> (13, 12) \<noteq> center g0 \<and>
             check_position g0 (13, 12) = Inr (Stuck g1)))"
proof -
  let ?g0 = "\<lparr>cells = (replicate 25 (replicate 25 False))[12 := (replicate 25 False)[12 := True]], radius_sq = 100\<rparr>"
  let ?g1 = "\<lparr>cells = (replicate 25 (replicate 25 False))[12 := (replicate 25 False)[12 := True], 13 := (replicate 25 False)[12 := True]], radius_sq = 100\<rparr>"
  let ?t = "\<lparr>entry = (10, 0), draws = (\<lambda>i. 4)\<rparr>"
  have s: "seed_grid 25 = Inr ?g0" by code_simp
  have r: "radius_lt_max ?g0" by code_simp
  have p: "particle ?g0 ?t = Inr ?g1" by code_simp
  have st: "loop_step\<^sup>*\<^sup>* ?g0 ?g1" using loop_step.intros [OF r p] by (rule r_into_rtranclp)
  have c: "center ?g0 = (12, 12)" by code_simp
  have o1: "occupied ?g1 (13, 12)" by code_simp
  have o0: "\<not> occupied ?g0 (13, 12)" by code_simp
  have cp: "check_position ?g0 (13, 12) = Inr (Stuck ?g1)" by code_simp
  have "(13::int, 12::int) = center ?g0 \<or>
        (0 \<le> fst (13::int, 12::int) \<and> fst (13::int, 12::int) \<le> 25 - 2 \<and>
         0 \<le> snd (13::int, 12::int) \<and> snd (13::int, 12::int) \<le> 25 - 2)"
    using committed_inside [OF s st] o1 by blast
  then show ?thesis using s p r c o1 cp by simp
qed

section \<open>The radius at the end of a run\<close>

text \<open>
  Claim C6 as stated fails at size 25, where \<open>maxRadius = 10.5\<close>. Every particle of the
  run below enters at \<open>(22, 12)\<close>, the centre \<open>(12, 12)\<close> plus radius 10 at angle 0. Nine
  particles walk west and stick at \<open>(13, 12)\<close> to \<open>(21, 12)\<close>; the tenth steps east, then
  west, and sticks at \<open>(22, 12)\<close>, at distance 10; the eleventh steps east and sticks at
  \<open>(23, 12)\<close>, at distance 11. The radius becomes 11, the loop test fails and the function
  returns with radius \<open>11 > 10.5\<close>.
\<close>

theorem final_radius_counterexample:
  "(case generate_dla_grid 25
       (replicate 9 \<lparr>entry = (10, 0), draws = (\<lambda>i. 4)\<rparr> @
        [\<lparr>entry = (10, 0), draws = (\<lambda>i. if i = 0 then 0 else 4)\<rparr>,
         \<lparr>entry = (10, 0), draws = (\<lambda>i. 0)\<rparr>]) of
      Some (Inr g) \<Rightarrow> max_radius g < radius g
    | _ \<Rightarrow> False)"
proof -
  let ?r = "(replicate 25 False)[12 := True]"
  let ?g = "\<lparr>cells = (replicate 25 (replicate 25 False))
                [12 := ?r, 13 := ?r, 14 := ?r, 15 := ?r, 16 := ?r, 17 := ?r,
                 18 := ?r, 19 := ?r, 20 := ?r, 21 := ?r, 22 := ?r, 23 := ?r],
             radius_sq = 121\<rparr>"
  have run: "generate_dla_grid 25
       (replicate 9 \<lparr>entry = (10, 0), draws = (\<lambda>i. 4)\<rparr> @
        [\<lparr>entry = (10, 0), draws = (\<lambda>i. if i = 0 then 0 else 4)\<rparr>,
         \<lparr>entry = (10, 0), draws = (\<lambda>i. 0)\<rparr>]) = Some (Inr ?g)"
    by code_simp
  have "shape0 ?g = 25" "shape1 ?g = 25" by code_simp+
  then have m: "max_radius ?g = 21 / 2" by (simp add: max_radius_def)
  have r: "radius ?g = 11" using real_sqrt_abs [of 11] by (simp add: radius_def)
  show ?thesis unfolding run by (simp add: m r)
qed

text \<open>
  Claim C6, amended: whenever \<^verbatim>\<open>generate_dla_grid\<close> returns a grid, its final radius is
  at least \<open>maxRadius(N) = min(N, N)/2 - 2\<close> (the loop ends when the radius is no longer
  below it), and it is either the initial radius 10 or less than \<open>maxRadius(N) + sqrt 2\<close>.
\<close>

theorem final_radius:
  assumes "generate_dla_grid n ts = Some (Inr g)"
  shows "max_radius g \<le> radius g \<and> (radius g = 10 \<or> radius g < max_radius g + sqrt 2)"
proof -
  obtain g0 where s: "seed_grid n = Inr g0" and re: "loop_step\<^sup>*\<^sup>* g0 g" and ex: "\<not> radius_lt_max g"
    using assms by (rule generate_reaches)
  have ri: "run_inv (nat n) g" using run_inv_reach[OF re run_inv_seed(2)[OF s]] .
  then have sq: "square_grid (nat n) g" by (simp add: run_inv_def)
  have rad: "radius_inv (nat n) g"
    using radius_inv_reach[OF re run_inv_seed(2)[OF s] radius_inv_seed[OF s]] .
  then have pos: "0 \<le> radius_sq g" by (simp add: radius_inv_def)
  have "max_radius g \<le> radius g" using ex radius_lt_max_iff[OF pos] by simp
  moreover have "radius_sq g = 100 \<longrightarrow> radius g = 10"
    using real_sqrt_abs[of 10] by (simp add: radius_def)
  then have "radius g = 10 \<or> radius g < max_radius g + sqrt 2"
    using rad by (auto simp: radius_inv_def max_radius_square[OF sq])
  ultimately show ?thesis by blast
qed

theorem final_radius_witness:
  "(case generate_dla_grid 25
       (replicate 9 \<lparr>entry = (10, 0), draws = (\<lambda>i. 4)\<rparr> @
        [\<lparr>entry = (10, 0), draws = (\<lambda>i. if i = 0 then 0 else 4)\<rparr>,
         \<lparr>entry = (10, 0), draws = (\<lambda>i. 0)\<rparr>]) of
      Some (Inr g) \<Rightarrow> max_radius g \<le> radius g \<and> radius g < max_radius g + sqrt 2
    | _ \<Rightarrow> False)"
proof -
  let ?r = "(replicate 25 False)[12 := True]"
  let ?g = "\<lparr>cells = (replicate 25 (replicate 25 False))
                [12 := ?r, 13 := ?r, 14 := ?r, 15 := ?r, 16 := ?r, 17 := ?r,
                 18 := ?r, 19 := ?r, 20 := ?r, 21 := ?r, 22 := ?r, 23 := ?r],
             radius_sq = 121\<rparr>"
  have run: "generate_dla_grid 25
       (replicate 9 \<lparr>entry = (10, 0), draws = (\<lambda>i. 4)\<rparr> @
        [\<lparr>entry = (10, 0), draws = (\<lambda>i. if i = 0 then 0 else 4)\<rparr>,
         \<lparr>entry = (10, 0), draws = (\<lambda>i. 0)\<rparr>]) = Some (Inr ?g)"
    by code_simp
  have "shape0 ?g = 25" "shape1 ?g = 25" by code_simp+
  then have m: "max_radius ?g = 21 / 2" by (simp add: max_radius_def)
  have r: "radius ?g = 11" using real_sqrt_abs [of 11] by (simp add: radius_def)
  have "max_radius ?g \<le> radius ?g \<and> (radius ?g = 10 \<or> radius ?g < max_radius ?g + sqrt 2)"
    using run by (rule final_radius)
  then have "max_radius ?g \<le> radius ?g \<and> radius ?g < max_radius ?g + sqrt 2"
    unfolding r by simp
  then show ?thesis unfolding run by simp
qed

section \<open>Errors of the sampler\<close>

lemma ratio_of_error:
  "ratio_of f c x = Inl e \<longleftrightarrow>
     f c = Inl e \<or> (\<exists>a. f c = Inr a \<and> (f x = Inl e \<or> (f x = Inr 0 \<and> e = ZeroDivisionError)))"
  by (auto simp: ratio_of_def py_truediv_def split: sum.splits)

lemma except_clause_id [simp]: "except_clause e = e"
  by (simp add: except_clause_def)

lemma mh_loop_error:
  "snd (mh_loop f n x burn out ds) = Some (Inl e) \<longleftrightarrow>
   (\<exists>cx \<in> set (fst (mh_loop f n x burn out ds)). ratio_of f (fst cx) (snd cx) = Inl e)"
proof (induction ds arbitrary: x burn out)
  case Nil
  then show ?case by simp
next
  case (Cons d ds)
  obtain u v where d: "d = (u, v)" by (cases d)
  show ?case
  proof (cases "int (length out) \<noteq> n")
    case False
    then show ?thesis by (simp add: d)
  next
    case True
    show ?thesis
    proof (cases "ratio_of f (x + u) x")
      case (Inl e')
      then show ?thesis using True by (auto simp: d)
    next
      case (Inr r)
      then show ?thesis using True Cons.IH by (simp add: d Let_def)
    qed
  qed
qed

text \<open>
  Claim C9 as stated fails in both of its parts. With the density
  \<^verbatim>\<open>lambda x: (x - 1.0) / (x - 1.0)\<close>, which is 1 everywhere but raises
  \<^verbatim>\<open>ZeroDivisionError\<close> at 1, the current state 0 and the candidate 1, the call raises
  \<^verbatim>\<open>ZeroDivisionError\<close> although the density at the current state is 1, not zero. With
  the density \<^verbatim>\<open>lambda x: x ** 2.0\<close>, which raises \<^verbatim>\<open>OverflowError\<close> when the square
  leaves the float range, and the current state \<open>10 ^ 200\<close>, the call raises
  \<^verbatim>\<open>OverflowError\<close>, an error of another class.
\<close>

theorem sampler_error_counterexample:
  "metropolis_hastings (\<lambda>x. if x = 1 then Inl ZeroDivisionError else Inr 1) 1 0 0 [(1, 1 / 2)] =
     Some (Inl ZeroDivisionError) \<and>
   ratio_calls (\<lambda>x. if x = 1 then Inl ZeroDivisionError else Inr 1) 1 0 0 [(1, 1 / 2)] = [(1, 0)] \<and>
   (if (0::real) = 1 then Inl ZeroDivisionError else Inr (1::real)) = Inr 1 \<and>
   metropolis_hastings (\<lambda>x. if x * x < 2 ^ 1024 then Inr (x * x) else Inl OverflowError) 1 0
     (10 ^ 200) [(1, 1 / 2)] = Some (Inl OverflowError)"
  by (simp add: metropolis_hastings_def ratio_calls_def ratio_of_def py_truediv_def)

text \<open>
  Claim C9, amended: a call of \<^verbatim>\<open>metropolis_hastings\<close> raises an error \<open>e\<close> exactly when,
  at some iteration, the evaluation of \<^verbatim>\<open>density_func(candidate) / density_func(x)\<close>
  raises \<open>e\<close>: the density raises \<open>e\<close> at the candidate, or it returns there and raises
  \<open>e\<close> at the current state \<open>x\<close>, or it returns at both, is zero at \<open>x\<close>, and \<open>e\<close> is
  \<^verbatim>\<open>ZeroDivisionError\<close>. When the density function itself never raises, the call
  raises exactly when the density is zero at the current state \<open>x\<close> of some iteration, and
  the error is then a \<^verbatim>\<open>ZeroDivisionError\<close>.
\<close>

theorem sampler_error_iff:
  "(metropolis_hastings density_func n burn x0 ds = Some (Inl e) \<longleftrightarrow>
      (\<exists>cx \<in> set (ratio_calls density_func n burn x0 ds).
         density_func (fst cx) = Inl e \<or>
         (\<exists>a. density_func (fst cx) = Inr a \<and>
              (density_func (snd cx) = Inl e \<or>
               (density_func (snd cx) = Inr 0 \<and> e = ZeroDivisionError))))) \<and>
   ((\<forall>y. \<exists>d. density_func y = Inr d) \<longrightarrow>
      (metropolis_hastings density_func n burn x0 ds = Some (Inl e) \<longleftrightarrow>
         e = ZeroDivisionError \<and>
         (\<exists>cx \<in> set (ratio_calls density_func n burn x0 ds). density_func (snd cx) = Inr 0)))"
proof -
  have gen: "metropolis_hastings density_func n burn x0 ds = Some (Inl e) \<longleftrightarrow>
      (\<exists>cx \<in> set (ratio_calls density_func n burn x0 ds).
         density_func (fst cx) = Inl e \<or>
         (\<exists>a. density_func (fst cx) = Inr a \<and>
              (density_func (snd cx) = Inl e \<or>
               (density_func (snd cx) = Inr 0 \<and> e = ZeroDivisionError))))"
    unfolding metropolis_hastings_def ratio_calls_def mh_loop_error ratio_of_error ..
  have "metropolis_hastings density_func n burn x0 ds = Some (Inl e) \<longleftrightarrow>
         e = ZeroDivisionError \<and>
         (\<exists>cx \<in> set (ratio_calls density_func n burn x0 ds). density_func (snd cx) = Inr 0)"
    if tot: "\<forall>y. \<exists>d. density_func y = Inr d"
  proof -
    have ne: "density_func y \<noteq> Inl e'" for y e' using tot by (metis Inl_Inr_False)
    have ex: "\<exists>a. density_func y = Inr a" for y using tot by blast
    show ?thesis unfolding gen using ne ex by auto
  qed
  then show ?thesis using gen by blast
qed

theorem sampler_error_iff_witness:
  "metropolis_hastings (\<lambda>x. Inr (if \<bar>x\<bar> < 2 then 1 else 0)) 3 0 5 [(1, 1 / 2)] =
     Some (Inl ZeroDivisionError) \<and>
   ratio_calls (\<lambda>x. Inr (if \<bar>x\<bar> < 2 then 1 else 0)) 3 0 5 [(1, 1 / 2)] = [(6, 5)] \<and>
   metropolis_hastings (\<lambda>x. Inr (if \<bar>x\<bar> < 2 then 1 else 0)) 1 0 0 [(1, 1 / 2)] = Some (Inr [1])"
proof -
  let ?f = "\<lambda>x::real. Inr (if \<bar>x\<bar> < 2 then 1 else 0) :: py_error + real"
  have tot: "\<forall>y. \<exists>d. ?f y = Inr d" by simp
  have c: "ratio_calls ?f 3 0 5 [(1, 1 / 2)] = [(6, 5)]"
    by (simp add: ratio_calls_def ratio_of_def py_truediv_def)
  have r: "metropolis_hastings ?f 1 0 0 [(1, 1 / 2)] = Some (Inr [1])"
    by (simp add: metropolis_hastings_def ratio_of_def py_truediv_def)
  have "metropolis_hastings ?f 3 0 5 [(1, 1 / 2)] = Some (Inl ZeroDivisionError) \<longleftrightarrow>
         ZeroDivisionError = ZeroDivisionError \<and>
         (\<exists>cx \<in> set (ratio_calls ?f 3 0 5 [(1, 1 / 2)]). ?f (snd cx) = Inr 0)"
    using sampler_error_iff [of ?f 3 0 5 "[(1, 1 / 2)]" ZeroDivisionError] tot by blast
  then have "metropolis_hastings ?f 3 0 5 [(1, 1 / 2)] = Some (Inl ZeroDivisionError)"
    unfolding c by simp
  then show ?thesis using c r by simp
qed

end
